theory Spec2Isabelle
  imports Main "HOL-Library.Word" "HOL-Library.Monad_Syntax"
begin

section \<open>The generic ring buffer of ringbufferof.go\<close>

text \<open>
  The Go type \<open>RingBufferOf[T]\<close> is a record with the fields of the struct. Go's \<open>int\<close>
  is modelled by \<open>int\<close>: every product and sum the code forms (\<open>n*2\<close> in \<open>Truncate\<close>,
  \<open>size*2\<close> and \<open>size + size/4\<close> in \<open>grow\<close>) is bounded by a small multiple of the
  length of an allocated slice, so the 64-bit range is never left by a buffer that fits
  in memory. The counter \<open>discards\<close> is a \<open>uint64\<close> and is a 64-bit word here.
  The zero value of \<open>T\<close> (\<open>var t T\<close>, and the cells of \<open>make([]T, n)\<close>) is \<open>0\<close> of class
  \<open>zero\<close>.

  The callback \<open>onDiscards\<close> is the only way for the buffer to act on its surroundings.
  It is modelled as an optional transformer of an outside world \<open>'e\<close>; \<open>None\<close> is Go's
  \<open>nil\<close>. An operation that may invoke it takes the world and returns the new one.

  A run-time panic of Go (index or slice bounds out of range, \<open>make\<close> with a negative
  length) is the result \<open>None\<close>.
\<close>

datatype error = ErrIsEmpty

record ('a, 'e) RingBufferOf =
  buf :: "'a list"
  initialSize :: int
  size_rb :: int
  maxSize :: int
  discards :: "64 word"
  r :: int
  w :: int
  onDiscards :: "('a \<Rightarrow> 'e \<Rightarrow> 'e) option"

text \<open>\<open>const minBufferSize = 2\<close>, declared in ringbuffer.go (README.md carries that file).\<close>

definition minBufferSize :: int where
  "minBufferSize = 2"

subsection \<open>Slices\<close>

text \<open>\<open>make([]T, n)\<close>: panics when \<open>n\<close> is negative.\<close>

definition make_slice :: "int \<Rightarrow> ('a::zero) list option" where
  "make_slice n = (if 0 \<le> n then Some (replicate (nat n) 0) else None)"

text \<open>\<open>xs[i]\<close> as a value and \<open>xs[i] = v\<close>: both panic out of range.\<close>

definition index :: "'a list \<Rightarrow> int \<Rightarrow> 'a option" where
  "index xs i = (if 0 \<le> i \<and> i < int (length xs) then Some (xs ! nat i) else None)"

definition store :: "'a list \<Rightarrow> int \<Rightarrow> 'a \<Rightarrow> 'a list option" where
  "store xs i v = (if 0 \<le> i \<and> i < int (length xs) then Some (xs[nat i := v]) else None)"

text \<open>
  \<open>xs[lo:hi]\<close>. Every slice of the program comes from \<open>make\<close> or from \<open>append\<close> to
  \<open>nil\<close> and is resliced only within its length, so the capacity bound of Go is the
  length here. \<open>xs[lo:]\<close> is \<open>slice xs lo (len xs)\<close> and \<open>xs[:hi]\<close> is \<open>slice xs 0 hi\<close>.
\<close>

definition slice :: "'a list \<Rightarrow> int \<Rightarrow> int \<Rightarrow> 'a list option" where
  "slice xs lo hi =
     (if 0 \<le> lo \<and> lo \<le> hi \<and> hi \<le> int (length xs)
      then Some (take (nat (hi - lo)) (drop (nat lo) xs)) else None)"

text \<open>
  \<open>copy(dst, src)\<close> copies \<open>min(len(dst), len(src))\<close> elements; the value is the new
  content of \<open>dst\<close>. \<open>copy(xs[off:], src)\<close> writes through to \<open>xs\<close>.
\<close>

definition copy :: "'a list \<Rightarrow> 'a list \<Rightarrow> 'a list" where
  "copy dst src = take (length dst) src @ drop (length src) dst"

definition copy_at :: "'a list \<Rightarrow> int \<Rightarrow> 'a list \<Rightarrow> 'a list option" where
  "copy_at xs off src =
     do { dst \<leftarrow> slice xs off (int (length xs));
          Some (take (nat off) xs @ copy dst src) }"

subsection \<open>Construction\<close>

text \<open>The variadic parameter \<open>maxBufferSize ...int\<close> is a list.\<close>

definition NewOf :: "int \<Rightarrow> int list \<Rightarrow> ('a::zero, 'e) RingBufferOf option" where
  "NewOf initialSize0 maxBufferSize =
     (let initialSize1 = (if initialSize0 < minBufferSize then minBufferSize else initialSize0);
          maxSize1 = (case maxBufferSize of
                        [] \<Rightarrow> 0
                      | m # _ \<Rightarrow> if m \<ge> minBufferSize then m else 0)
      in do { b \<leftarrow> make_slice initialSize1;
              Some \<lparr>buf = b, initialSize = initialSize1, size_rb = initialSize1,
                    maxSize = maxSize1, discards = 0, r = 0, w = 0, onDiscards = None\<rparr> })"

definition NewUnboundedOf :: "int \<Rightarrow> ('a::zero, 'e) RingBufferOf option" where
  "NewUnboundedOf initialSize0 = NewOf initialSize0 [0]"

definition NewFixedOf :: "int \<Rightarrow> ('a::zero, 'e) RingBufferOf option" where
  "NewFixedOf initialSize0 = NewOf initialSize0 [initialSize0]"

subsection \<open>Accessors\<close>

definition IsEmpty :: "('a, 'e) RingBufferOf \<Rightarrow> bool" where
  "IsEmpty s = (r s = w s)"

definition Capacity :: "('a, 'e) RingBufferOf \<Rightarrow> int" where
  "Capacity s = size_rb s"

definition MaxSize :: "('a, 'e) RingBufferOf \<Rightarrow> int" where
  "MaxSize s = maxSize s"

definition Discards :: "('a, 'e) RingBufferOf \<Rightarrow> 64 word" where
  "Discards s = discards s"

definition Len :: "('a, 'e) RingBufferOf \<Rightarrow> int" where
  "Len s = (if r s = w s then 0
            else if w s > r s then w s - r s
            else size_rb s - r s + w s)"

subsection \<open>Reading\<close>

text \<open>
  A Go result \<open>(T, error)\<close> is a pair of the value and an optional error (\<open>None\<close> is
  \<open>nil\<close>); a method that changes the buffer returns the new buffer as well.
\<close>

definition Read ::
  "('a::zero, 'e) RingBufferOf \<Rightarrow> (('a \<times> error option) \<times> ('a, 'e) RingBufferOf) option" where
  "Read s =
     (if r s = w s then Some ((0, Some ErrIsEmpty), s)
      else do { v \<leftarrow> index (buf s) (r s);
                let s1 = s\<lparr>r := r s + 1\<rparr>;
                let s2 = (if r s1 = size_rb s1 then s1\<lparr>r := 0\<rparr> else s1);
                Some ((v, None), s2) })"

definition RRead ::
  "('a::zero, 'e) RingBufferOf \<Rightarrow> (('a \<times> error option) \<times> ('a, 'e) RingBufferOf) option" where
  "RRead s =
     (if r s = w s then Some ((0, Some ErrIsEmpty), s)
      else if w s = 0 then
        do { let s1 = s\<lparr>w := size_rb s - 1\<rparr>;
             v \<leftarrow> index (buf s1) (w s1);
             Some ((v, None), s1) }
      else
        do { let s1 = s\<lparr>w := w s - 1\<rparr>;
             v \<leftarrow> index (buf s1) (w s1);
             Some ((v, None), s1) })"

definition Peek :: "('a::zero, 'e) RingBufferOf \<Rightarrow> ('a \<times> error option) option" where
  "Peek s =
     (if r s = w s then Some (0, Some ErrIsEmpty)
      else do { v \<leftarrow> index (buf s) (r s); Some (v, None) })"

definition RPeek :: "('a::zero, 'e) RingBufferOf \<Rightarrow> ('a \<times> error option) option" where
  "RPeek s =
     (if r s = w s then Some (0, Some ErrIsEmpty)
      else if w s = 0 then do { v \<leftarrow> index (buf s) (size_rb s - 1); Some (v, None) }
      else do { v \<leftarrow> index (buf s) (w s - 1); Some (v, None) })"

text \<open>The result \<open>nil\<close> of \<open>PeekAll\<close> on an empty buffer is the empty list.\<close>

definition PeekAll :: "('a, 'e) RingBufferOf \<Rightarrow> 'a list option" where
  "PeekAll s =
     (if r s = w s then Some []
      else if w s > r s then
        do { xs \<leftarrow> slice (buf s) (r s) (w s); Some ([] @ xs) }
      else
        do { xs \<leftarrow> slice (buf s) (r s) (int (length (buf s)));
             ys \<leftarrow> slice (buf s) 0 (w s);
             Some (([] @ xs) @ ys) })"

definition RPeekN :: "int \<Rightarrow> ('a, 'e) RingBufferOf \<Rightarrow> 'a list option" where
  "RPeekN n s =
     (if n \<le> 0 then Some []
      else do { b \<leftarrow> PeekAll s;
                let l = int (length b);
                if l \<ge> n then slice b (l - n) (int (length b)) else Some b })"

definition LPeekN :: "int \<Rightarrow> ('a, 'e) RingBufferOf \<Rightarrow> 'a list option" where
  "LPeekN n s =
     (if n \<le> 0 then Some []
      else do { b \<leftarrow> PeekAll s;
                if int (length b) \<ge> n then slice b 0 n else Some b })"

subsection \<open>Growth and writing\<close>

text \<open>
  Go's \<open>/\<close> truncates towards zero; in \<open>grow\<close> it is applied to a size of at least 1024,
  where it agrees with \<open>div\<close>.
\<close>

definition grow :: "('a::zero, 'e) RingBufferOf \<Rightarrow> ('a, 'e) RingBufferOf option" where
  "grow s =
     (let sz = (if size_rb s < 1024 then size_rb s * 2 else size_rb s + size_rb s div 4)
      in do { b0 \<leftarrow> make_slice sz;
              tl_span \<leftarrow> slice (buf s) (r s) (int (length (buf s)));
              b1 \<leftarrow> copy_at b0 0 tl_span;
              hd_span \<leftarrow> slice (buf s) 0 (r s);
              b2 \<leftarrow> copy_at b1 (size_rb s - r s) hd_span;
              Some (s\<lparr>r := 0, w := size_rb s, size_rb := sz, buf := b2\<rparr>) })"

definition Write ::
  "'a \<Rightarrow> ('a::zero, 'e) RingBufferOf \<Rightarrow> 'e \<Rightarrow> (('a, 'e) RingBufferOf \<times> 'e) option" where
  "Write v s e =
     (if maxSize s > 0 \<and> Len s \<ge> maxSize s then
        (let s1 = s\<lparr>discards := discards s + 1\<rparr>
         in Some (s1, case onDiscards s1 of None \<Rightarrow> e | Some fn \<Rightarrow> fn v e))
      else
        do { b \<leftarrow> store (buf s) (w s) v;
             let s1 = s\<lparr>buf := b, w := w s + 1\<rparr>;
             let s2 = (if w s1 = size_rb s1 then s1\<lparr>w := 0\<rparr> else s1);
             s3 \<leftarrow> (if w s2 = r s2 then grow s2 else Some s2);
             Some (s3, e) })"

definition Overwrite :: "'a \<Rightarrow> ('a::zero, 'e) RingBufferOf \<Rightarrow> ('a, 'e) RingBufferOf option" where
  "Overwrite v s =
     (let s0 = (if maxSize s > 0 \<and> Len s \<ge> maxSize s then
                  (let t = s\<lparr>r := r s + 1\<rparr>
                   in if r t = size_rb t then t\<lparr>r := 0\<rparr> else t)
                else s)
      in do { b \<leftarrow> store (buf s0) (w s0) v;
              let s1 = s0\<lparr>buf := b, w := w s0 + 1\<rparr>;
              let s2 = (if w s1 = size_rb s1 then s1\<lparr>w := 0\<rparr> else s1);
              if w s2 = r s2 then grow s2 else Some s2 })"

subsection \<open>Reset, Truncate and the bound\<close>

definition Reset :: "('a::zero, 'e) RingBufferOf \<Rightarrow> ('a, 'e) RingBufferOf option" where
  "Reset s =
     do { b \<leftarrow> make_slice (initialSize s);
          Some (s\<lparr>r := 0, w := 0, size_rb := initialSize s, buf := b\<rparr>) }"

definition Truncate :: "int \<Rightarrow> ('a::zero, 'e) RingBufferOf \<Rightarrow> ('a, 'e) RingBufferOf option" where
  "Truncate n s =
     (if n \<le> 0 then Reset s
      else if Len s \<le> n then Some s
      else if size_rb s > n * 2 then
        do { data \<leftarrow> RPeekN n s;
             let s1 = s\<lparr>r := 0, w := n, size_rb := n + 1\<rparr>;
             b \<leftarrow> make_slice (size_rb s1);
             Some (s1\<lparr>buf := copy b data\<rparr>) }
      else if w s > r s then Some (s\<lparr>r := w s - r s - n\<rparr>)
      else (let x = w s - n
            in if x \<ge> 0 then Some (s\<lparr>r := x\<rparr>) else Some (s\<lparr>r := size_rb s + x\<rparr>)))"

definition SetMaxSize ::
  "int \<Rightarrow> ('a::zero, 'e) RingBufferOf \<Rightarrow> (int \<times> ('a, 'e) RingBufferOf) option" where
  "SetMaxSize n s =
     (if n = 0 then (let s1 = s\<lparr>maxSize := 0\<rparr> in Some (maxSize s1, s1))
      else if n \<ge> minBufferSize then
        do { s2 \<leftarrow> Truncate n (s\<lparr>maxSize := n\<rparr>); Some (maxSize s2, s2) }
      else Some (maxSize s, s))"

definition SetOnDiscards ::
  "('a \<Rightarrow> 'e \<Rightarrow> 'e) option \<Rightarrow> ('a, 'e) RingBufferOf \<Rightarrow> ('a, 'e) RingBufferOf" where
  "SetOnDiscards fn s = (case fn of None \<Rightarrow> s | Some f \<Rightarrow> s\<lparr>onDiscards := Some f\<rparr>)"

subsection \<open>Callers' loops\<close>

text \<open>
  \<open>for _, v := range vs { rb.Write(v) }\<close> and the same with \<open>Overwrite\<close>, as the tests
  run them.
\<close>

fun Writes ::
  "'a list \<Rightarrow> ('a::zero, 'e) RingBufferOf \<Rightarrow> 'e \<Rightarrow> (('a, 'e) RingBufferOf \<times> 'e) option" where
  "Writes [] s e = Some (s, e)"
| "Writes (v # vs) s e = (case Write v s e of None \<Rightarrow> None | Some (s1, e1) \<Rightarrow> Writes vs s1 e1)"

fun Overwrites :: "'a list \<Rightarrow> ('a::zero, 'e) RingBufferOf \<Rightarrow> ('a, 'e) RingBufferOf option" where
  "Overwrites [] s = Some s"
| "Overwrites (v # vs) s = (case Overwrite v s of None \<Rightarrow> None | Some s1 \<Rightarrow> Overwrites vs s1)"

text \<open>
  The draining loop of the tests,
  \<open>for { v, err := rb.Read(); if err == ErrIsEmpty { break }; ... }\<close>,
  collecting the values read. The loop need not end on an arbitrary record, so it runs
  on fuel; \<open>None\<close> is a panic or the end of the fuel.
\<close>

fun drain ::
  "nat \<Rightarrow> ('a::zero, 'e) RingBufferOf \<Rightarrow> ('a list \<times> ('a, 'e) RingBufferOf) option" where
  "drain 0 s = None"
| "drain (Suc k) s =
     (case Read s of
        None \<Rightarrow> None
      | Some ((v, err), s1) \<Rightarrow>
          if err = Some ErrIsEmpty then Some ([], s1)
          else (case drain k s1 of None \<Rightarrow> None | Some (vs, s2) \<Rightarrow> Some (v # vs, s2)))"

subsection \<open>The common tail of Write and Overwrite\<close>

text \<open>
  \<open>Write\<close> (lines 146 to 155) and \<open>Overwrite\<close> (lines 167 to 176) end with the same
  statements: store at the write cursor, advance it with wraparound, grow when it meets
  the read cursor. \<open>put\<close> names that tail for the proofs; the two operations above are
  written out as the source has them.
\<close>

definition put :: "'a \<Rightarrow> ('a::zero, 'e) RingBufferOf \<Rightarrow> ('a, 'e) RingBufferOf option" where
  "put v s =
     do { b \<leftarrow> store (buf s) (w s) v;
          let s1 = s\<lparr>buf := b, w := w s + 1\<rparr>;
          let s2 = (if w s1 = size_rb s1 then s1\<lparr>w := 0\<rparr> else s1);
          if w s2 = r s2 then grow s2 else Some s2 }"

subsection \<open>Invariant and abstraction\<close>

definition rb_inv :: "('a, 'e) RingBufferOf \<Rightarrow> bool" where
  "rb_inv s \<longleftrightarrow>
     2 \<le> size_rb s \<and> int (length (buf s)) = size_rb s \<and> 2 \<le> initialSize s \<and>
     0 \<le> r s \<and> r s < size_rb s \<and> 0 \<le> w s \<and> w s < size_rb s"

text \<open>The logical content, oldest first.\<close>

definition contents :: "('a, 'e) RingBufferOf \<Rightarrow> 'a list" where
  "contents s =
     (if r s \<le> w s then take (nat (w s - r s)) (drop (nat (r s)) (buf s))
      else drop (nat (r s)) (buf s) @ take (nat (w s)) (buf s))"

text \<open>The states a program can reach through the public operations.\<close>

inductive reachable :: "('a::zero, 'e) RingBufferOf \<Rightarrow> bool" where
  r_New: "NewOf n ms = Some s \<Longrightarrow> reachable s"
| r_Read: "reachable s \<Longrightarrow> Read s = Some (x, s') \<Longrightarrow> reachable s'"
| r_RRead: "reachable s \<Longrightarrow> RRead s = Some (x, s') \<Longrightarrow> reachable s'"
| r_Write: "reachable s \<Longrightarrow> Write v s e = Some (s', e') \<Longrightarrow> reachable s'"
| r_Overwrite: "reachable s \<Longrightarrow> Overwrite v s = Some s' \<Longrightarrow> reachable s'"
| r_Truncate: "reachable s \<Longrightarrow> Truncate n s = Some s' \<Longrightarrow> reachable s'"
| r_Reset: "reachable s \<Longrightarrow> Reset s = Some s' \<Longrightarrow> reachable s'"
| r_SetMaxSize: "reachable s \<Longrightarrow> SetMaxSize n s = Some (m, s') \<Longrightarrow> reachable s'"
| r_SetOnDiscards: "reachable s \<Longrightarrow> reachable (SetOnDiscards fn s)"

section \<open>The invariant is kept and the content is a queue\<close>

subsection \<open>Arithmetic and lists\<close>

lemma copy_at_0: "copy_at xs 0 src = Some (take (length xs) src @ drop (length src) xs)"
  by (simp add: copy_at_def slice_def copy_def)

lemma rb_inv_nat:
  assumes "rb_inv s"
  obtains n k j where "size_rb s = int n" "length (buf s) = n" "r s = int k" "w s = int j"
    "k < n" "j < n" "2 \<le> n" "2 \<le> initialSize s"
proof -
  from assms have "0 \<le> r s" "0 \<le> w s" "0 \<le> size_rb s" by (auto simp: rb_inv_def)
  then obtain n k j where "size_rb s = int n" "r s = int k" "w s = int j"
    by (metis zero_le_imp_eq_int)
  with assms that show thesis by (auto simp: rb_inv_def)
qed

lemma grow_inv:
  assumes "rb_inv s"
  shows "grow s = Some (s\<lparr>r := 0, w := size_rb s,
            size_rb := (if size_rb s < 1024 then size_rb s * 2 else size_rb s + size_rb s div 4),
            buf := drop (nat (r s)) (buf s) @ take (nat (r s)) (buf s) @
                   replicate (nat ((if size_rb s < 1024 then size_rb s * 2 else size_rb s + size_rb s div 4) - size_rb s)) 0\<rparr>)"
proof -
  from assms obtain n k j where n: "size_rb s = int n" "length (buf s) = n" "r s = int k" "k < n" "2 \<le> n"
    by (rule rb_inv_nat)
  define sz where "sz = (if size_rb s < 1024 then size_rb s * 2 else size_rb s + size_rb s div 4)"
  have "0 \<le> sz" "size_rb s \<le> sz" using n by (auto simp: sz_def)
  then obtain m where sz: "sz = int m" "n \<le> m"
    using n by (metis zero_le_imp_eq_int of_nat_le_iff)
  have a: "make_slice sz = Some (replicate m (0::'a))"
    using sz by (simp add: make_slice_def)
  have b: "slice (buf s) (r s) (int (length (buf s))) = Some (drop k (buf s))"
    using n by (simp add: slice_def)
  have c: "slice (buf s) 0 (r s) = Some (take k (buf s))"
    using n by (simp add: slice_def)
  have d: "copy_at (replicate m (0::'a)) 0 (drop k (buf s)) = Some (drop k (buf s) @ replicate (m - (n - k)) 0)"
    using n sz by (simp add: copy_at_0)
  have g: "m - (n - k) = k + (m - n)" using n sz by simp
  have e: "copy_at (drop k (buf s) @ replicate (m - (n - k)) (0::'a)) (size_rb s - r s) (take k (buf s))
      = Some (drop k (buf s) @ take k (buf s) @ replicate (m - n) 0)"
    unfolding g using n sz by (simp add: copy_at_def slice_def copy_def nat_diff_distrib)
  have h: "nat (r s) = k" using n by simp
  have f: "nat (sz - size_rb s) = m - n"
    using n sz by simp
  show ?thesis
    unfolding grow_def Let_def sz_def[symmetric]
    by (simp add: a b c d e f h)
qed

lemma grow_size_gt: "2 \<le> (c::int) \<Longrightarrow> c < (if c < 1024 then c * 2 else c + c div 4)"
  by auto

lemma nat_int_diff: "nat (int a - int b) = a - b"
  by arith

lemma nat_int_Suc: "nat (1 + int j) = Suc j" "nat (int j + 1) = Suc j"
  by arith+

lemma take_Suc_upd: "j < length xs \<Longrightarrow> take (Suc j) (xs[j := v]) = take j xs @ [v]"
  by (simp add: take_Suc_conv_app_nth)

lemma take_drop_upd:
  assumes "k \<le> j" "j < length xs"
  shows "take (Suc j - k) (drop k (xs[j := v])) = take (j - k) (drop k xs) @ [v]"
proof -
  have "drop k (xs[j := v]) = (drop k xs)[j - k := v]"
    using assms by (simp add: drop_update_swap)
  moreover have "Suc j - k = Suc (j - k)" using assms by simp
  moreover have "j - k < length (drop k xs)" using assms by simp
  ultimately show ?thesis by (simp only: take_Suc_upd)
qed

lemma drop_upd_last:
  assumes "k \<le> j" "Suc j = length xs"
  shows "drop k (xs[j := v]) = take (j - k) (drop k xs) @ [v]"
proof -
  have "drop k (xs[j := v]) = take (Suc j - k) (drop k (xs[j := v]))"
    using assms by simp
  with take_drop_upd [of k j xs v] assms show ?thesis by simp
qed

lemma put_inv:
  assumes "rb_inv s"
  shows "\<exists>s'. put v s = Some s' \<and> rb_inv s' \<and> contents s' = contents s @ [v] \<and>
           r s' \<noteq> w s' \<and>
           size_rb s' = (if (if w s + 1 = size_rb s then 0 else w s + 1) = r s
                         then (if size_rb s < 1024 then size_rb s * 2 else size_rb s + size_rb s div 4)
                         else size_rb s) \<and>
           maxSize s' = maxSize s \<and> discards s' = discards s \<and> onDiscards s' = onDiscards s \<and>
           initialSize s' = initialSize s"
proof -
  from assms obtain n k j where n: "size_rb s = int n" "length (buf s) = n" "r s = int k"
      "w s = int j" "k < n" "j < n" "2 \<le> n" "2 \<le> initialSize s"
    by (rule rb_inv_nat)
  define b where "b = (buf s)[j := v]"
  define wn where "wn = (if j + 1 = n then 0 else j + 1)"
  define s2 where "s2 = s\<lparr>buf := b, w := int wn\<rparr>"
  have st: "store (buf s) (w s) v = Some b"
    using n by (simp add: store_def b_def)
  have inv2: "rb_inv s2"
    using n by (auto simp: rb_inv_def s2_def b_def wn_def)
  have p: "put v s = (if wn = k then grow s2 else Some s2)"
    unfolding put_def st using n by (auto simp: Let_def s2_def wn_def)
  have wnext: "(if w s + 1 = size_rb s then 0 else w s + 1) = int wn"
    using n by (auto simp: wn_def)
  have c2: "contents s2 = contents s @ [v]" if "wn \<noteq> k"
  proof (cases "k \<le> j")
    case True
    show ?thesis
    proof (cases "Suc j = n")
      case True
      with \<open>k \<le> j\<close> that n have "0 < k" by (simp add: wn_def)
      with True \<open>k \<le> j\<close> n show ?thesis
        by (simp add: nat_int_diff nat_int_Suc contents_def s2_def b_def wn_def drop_upd_last)
    next
      case False
      with \<open>k \<le> j\<close> n have "nat (int (Suc j) - int k) = Suc j - k" by simp
      with False \<open>k \<le> j\<close> n show ?thesis
        by (simp add: nat_int_diff nat_int_Suc contents_def s2_def b_def wn_def take_drop_upd)
    qed
  next
    case False
    with that n have "Suc j < k" "Suc j \<noteq> n" by (auto simp: wn_def)
    with n show ?thesis
      by (simp add: nat_int_diff nat_int_Suc contents_def s2_def b_def wn_def drop_update_cancel take_Suc_upd)
  qed
  show ?thesis
  proof (cases "wn = k")
    case False
    with p inv2 c2 wnext n show ?thesis
      by (auto simp: s2_def)
  next
    case True
    have g: "grow s2 = Some (s2\<lparr>r := 0, w := size_rb s2,
            size_rb := (if size_rb s2 < 1024 then size_rb s2 * 2 else size_rb s2 + size_rb s2 div 4),
            buf := drop (nat (r s2)) (buf s2) @ take (nat (r s2)) (buf s2) @
                   replicate (nat ((if size_rb s2 < 1024 then size_rb s2 * 2 else size_rb s2 + size_rb s2 div 4) - size_rb s2)) 0\<rparr>)"
      (is "_ = Some ?s'")
      by (rule grow_inv [OF inv2])
    have lb: "length b = n" using n by (simp add: b_def)
    have gt: "int n < (if int n < 1024 then int n * 2 else int n + int n div 4)"
      using n by (intro grow_size_gt) simp
    have inv': "rb_inv ?s'"
      using n gt by (auto simp: rb_inv_def s2_def lb nat_diff_distrib)
    have "contents ?s' = drop k b @ take k b"
      using n by (simp add: contents_def s2_def lb)
    also have "\<dots> = contents s @ [v]"
    proof (cases "k \<le> j")
      case True
      with \<open>wn = k\<close> n have "Suc j = n" "k = 0" by (auto simp: wn_def split: if_splits)
      with n show ?thesis
        by (simp add: nat_int_diff nat_int_Suc contents_def b_def drop_upd_last [of 0, simplified])
    next
      case False
      with \<open>wn = k\<close> n have "k = Suc j" by (auto simp: wn_def split: if_splits)
      with n show ?thesis
        by (simp add: nat_int_diff nat_int_Suc contents_def b_def drop_update_cancel take_Suc_upd)
    qed
    finally have c': "contents ?s' = contents s @ [v]" .
    show ?thesis
      using p True g inv' c' wnext n by (auto simp: s2_def)
  qed
qed

subsection \<open>Cursor moves\<close>

lemma Write_put:
  "Write v s e =
     (if maxSize s > 0 \<and> Len s \<ge> maxSize s
      then Some (s\<lparr>discards := discards s + 1\<rparr>,
                 case onDiscards s of None \<Rightarrow> e | Some fn \<Rightarrow> fn v e)
      else map_option (\<lambda>s'. (s', e)) (put v s))"
  by (cases "store (buf s) (w s) v")
     (auto simp: Write_def put_def Let_def split: bind_splits)

lemma Overwrite_put:
  "Overwrite v s =
     put v (if maxSize s > 0 \<and> Len s \<ge> maxSize s
            then (let t = s\<lparr>r := r s + 1\<rparr> in if r t = size_rb t then t\<lparr>r := 0\<rparr> else t)
            else s)"
  by (simp only: Overwrite_def put_def Let_def)

lemma advance_r_eq:
  "(let t = s\<lparr>r := r s + 1\<rparr> in if r t = size_rb t then t\<lparr>r := 0\<rparr> else t) =
   s\<lparr>r := (if r s + 1 = size_rb s then 0 else r s + 1)\<rparr>"
  by (simp add: Let_def)

lemma contents_Nil_iff: "rb_inv s \<Longrightarrow> contents s = [] \<longleftrightarrow> r s = w s"
  by (auto simp: contents_def rb_inv_def)

lemma Len_contents: "rb_inv s \<Longrightarrow> Len s = int (length (contents s))"
  by (auto simp: Len_def contents_def rb_inv_def)

lemma PeekAll_contents: "rb_inv s \<Longrightarrow> PeekAll s = Some (contents s)"
  by (auto simp: PeekAll_def contents_def rb_inv_def slice_def)

lemma advance_r:
  assumes "rb_inv s" "r s \<noteq> w s"
  shows "rb_inv (s\<lparr>r := (if r s + 1 = size_rb s then 0 else r s + 1)\<rparr>) \<and>
         contents s = (buf s ! nat (r s)) # contents (s\<lparr>r := (if r s + 1 = size_rb s then 0 else r s + 1)\<rparr>)"
proof -
  from assms(1) obtain n k j where n: "size_rb s = int n" "length (buf s) = n" "r s = int k"
      "w s = int j" "k < n" "j < n" "2 \<le> n" "2 \<le> initialSize s"
    by (rule rb_inv_nat)
  from assms n have kj: "k \<noteq> j" by simp
  have inv: "rb_inv (s\<lparr>r := (if r s + 1 = size_rb s then 0 else r s + 1)\<rparr>)"
    using n by (auto simp: rb_inv_def)
  have "contents s = (buf s ! k) # contents (s\<lparr>r := (if r s + 1 = size_rb s then 0 else r s + 1)\<rparr>)"
  proof (cases "k < j")
    case True
    then have "j - k = Suc (j - Suc k)" by simp
    with True n show ?thesis
      by (simp add: contents_def nat_diff_distrib' nat_add_distrib nat_int_diff nat_int_Suc Cons_nth_drop_Suc [symmetric])
  next
    case False
    with kj have jk: "j < k" by simp
    show ?thesis
    proof (cases "Suc k = n")
      case True
      with n have "drop k (buf s) = [buf s ! k]"
        by (metis Cons_nth_drop_Suc drop_all le_refl)
      with True jk n show ?thesis
        by (simp add: contents_def)
    next
      case False
      with jk n show ?thesis
        by (simp add: contents_def nat_int_Suc Cons_nth_drop_Suc [symmetric])
    qed
  qed
  with inv n show ?thesis by simp
qed

lemma retreat_w:
  assumes "rb_inv s" "r s \<noteq> w s"
  shows "rb_inv (s\<lparr>w := (if w s = 0 then size_rb s - 1 else w s - 1)\<rparr>) \<and>
         0 \<le> (if w s = 0 then size_rb s - 1 else w s - 1) \<and>
         (if w s = 0 then size_rb s - 1 else w s - 1) < int (length (buf s)) \<and>
         contents s = contents (s\<lparr>w := (if w s = 0 then size_rb s - 1 else w s - 1)\<rparr>) @
                      [buf s ! nat (if w s = 0 then size_rb s - 1 else w s - 1)]"
proof -
  from assms(1) obtain n k j where n: "size_rb s = int n" "length (buf s) = n" "r s = int k"
      "w s = int j" "k < n" "j < n" "2 \<le> n" "2 \<le> initialSize s"
    by (rule rb_inv_nat)
  from assms n have kj: "k \<noteq> j" by simp
  have inv: "rb_inv (s\<lparr>w := (if w s = 0 then size_rb s - 1 else w s - 1)\<rparr>)"
    using n by (auto simp: rb_inv_def)
  have c: "contents s = contents (s\<lparr>w := (if w s = 0 then size_rb s - 1 else w s - 1)\<rparr>) @
                      [buf s ! nat (if w s = 0 then size_rb s - 1 else w s - 1)]"
  proof (cases "j = 0")
    case True
    with kj n have "0 < k" by simp
    have "int n - 1 = int (n - 1)" using n by simp
    moreover have "drop k (buf s) = take (n - 1 - k) (drop k (buf s)) @ [buf s ! (n - 1)]"
    proof -
      have "drop k (buf s) = take (Suc (n - 1 - k)) (drop k (buf s))"
        using n by simp
      also have "\<dots> = take (n - 1 - k) (drop k (buf s)) @ [drop k (buf s) ! (n - 1 - k)]"
        using n by (intro take_Suc_conv_app_nth) simp
      finally show ?thesis using n by simp
    qed
    ultimately show ?thesis
      using True \<open>0 < k\<close> n by (simp add: contents_def nat_diff_distrib' nat_add_distrib nat_int_diff)
  next
    case False
    then obtain i where i: "j = Suc i" by (cases j) auto
    have e: "int (Suc i) - 1 = int i" by simp
    show ?thesis
    proof (cases "k \<le> i")
      case True
      then have "Suc i - k = Suc (i - k)" by simp
      with True i n show ?thesis
        by (simp add: contents_def nat_diff_distrib' nat_add_distrib nat_int_diff take_Suc_conv_app_nth del: of_nat_Suc)
    next
      case False
      with i n kj show ?thesis
        by (simp add: contents_def nat_diff_distrib' nat_add_distrib nat_int_diff take_Suc_conv_app_nth del: of_nat_Suc)
    qed
  qed
  from inv c n show ?thesis by auto
qed

subsection \<open>Operations keep the invariant\<close>

lemma Read_nonempty:
  assumes "rb_inv s" "r s \<noteq> w s"
  shows "Read s = Some ((buf s ! nat (r s), None),
                        s\<lparr>r := (if r s + 1 = size_rb s then 0 else r s + 1)\<rparr>)"
  using assms by (simp add: Read_def index_def rb_inv_def Let_def)

lemma RRead_nonempty:
  assumes "rb_inv s" "r s \<noteq> w s"
  shows "RRead s = Some ((buf s ! nat (if w s = 0 then size_rb s - 1 else w s - 1), None),
                         s\<lparr>w := (if w s = 0 then size_rb s - 1 else w s - 1)\<rparr>)"
  using assms by (simp add: RRead_def index_def rb_inv_def Let_def)

lemma Peek_nonempty:
  assumes "rb_inv s" "r s \<noteq> w s"
  shows "Peek s = Some (buf s ! nat (r s), None)"
  using assms by (simp add: Peek_def index_def rb_inv_def)

lemma RPeek_nonempty:
  assumes "rb_inv s" "r s \<noteq> w s"
  shows "RPeek s = Some (buf s ! nat (if w s = 0 then size_rb s - 1 else w s - 1), None)"
  using assms by (simp add: RPeek_def index_def rb_inv_def)

lemma Len_bounds: "rb_inv s \<Longrightarrow> 0 \<le> Len s \<and> Len s < size_rb s"
  by (auto simp: Len_def rb_inv_def)

lemma Len_mod:
  assumes "rb_inv s"
  shows "Len s = (w s - r s + size_rb s) mod size_rb s"
proof (cases "r s \<le> w s")
  case True
  with assms have "(w s - r s) mod size_rb s = w s - r s"
    by (intro mod_pos_pos_trivial) (auto simp: rb_inv_def)
  with True show ?thesis by (auto simp: Len_def)
next
  case False
  with assms have "(w s - r s + size_rb s) mod size_rb s = w s - r s + size_rb s"
    by (intro mod_pos_pos_trivial) (auto simp: rb_inv_def)
  with False show ?thesis by (auto simp: Len_def)
qed

lemma Len_0_iff: "rb_inv s \<Longrightarrow> Len s = 0 \<longleftrightarrow> r s = w s"
  by (auto simp: Len_def rb_inv_def)

lemma Reset_inv:
  assumes "rb_inv s"
  shows "\<exists>s'. Reset s = Some s' \<and> rb_inv s' \<and> r s' = 0 \<and> w s' = 0 \<and>
           size_rb s' = initialSize s"
  using assms by (simp add: Reset_def make_slice_def rb_inv_def)

lemma RPeekN_inv:
  assumes "rb_inv s" "0 < n" "n < Len s"
  shows "RPeekN n s = Some (drop (length (contents s) - nat n) (contents s))"
proof -
  have "nat (int (length (contents s)) - n) = length (contents s) - nat n"
    using assms(2) by linarith
  with assms show ?thesis
    by (simp add: RPeekN_def PeekAll_contents Len_contents slice_def Let_def)
qed

lemma Truncate_inv:
  assumes "rb_inv s"
  shows "\<exists>s'. Truncate n s = Some s' \<and> rb_inv s' \<and> maxSize s' = maxSize s"
proof -
  have inplace: "\<not> n \<le> 0 \<Longrightarrow> \<not> Len s \<le> n \<Longrightarrow> \<not> size_rb s > n * 2 \<Longrightarrow> ?thesis"
    using assms by (auto simp: Truncate_def Let_def rb_inv_def Len_def split: if_splits)
  have realloc: "\<not> n \<le> 0 \<Longrightarrow> \<not> Len s \<le> n \<Longrightarrow> size_rb s > n * 2 \<Longrightarrow> ?thesis"
    using assms RPeekN_inv [of s n]
    by (simp add: Truncate_def Let_def make_slice_def copy_def rb_inv_def)
  show ?thesis
  proof (cases "n \<le> 0")
    case True
    with Reset_inv [OF assms] show ?thesis
      by (auto simp: Truncate_def Reset_def split: bind_splits)
  next
    case False
    with inplace realloc assms show ?thesis
      by (cases "Len s \<le> n"; cases "size_rb s > n * 2") (auto simp: Truncate_def)
  qed
qed

lemma SetMaxSize_inv:
  assumes "rb_inv s"
  shows "\<exists>m s'. SetMaxSize n s = Some (m, s') \<and> rb_inv s' \<and> m = maxSize s'"
proof -
  have "rb_inv (s\<lparr>maxSize := n\<rparr>)" using assms by (simp add: rb_inv_def)
  from Truncate_inv [OF this, of n] assms show ?thesis
    by (auto simp: SetMaxSize_def Let_def rb_inv_def)
qed

lemma NewOf_inv: "NewOf n ms = Some s \<Longrightarrow> rb_inv s"
  by (auto simp: NewOf_def Let_def make_slice_def rb_inv_def minBufferSize_def split: if_splits)

lemma Write_inv:
  assumes "rb_inv s" "Write v s e = Some (s', e')"
  shows "rb_inv s'"
  using assms put_inv [OF assms(1), of v]
  by (auto simp: Write_put rb_inv_def split: if_splits)

lemma Overwrite_inv:
  assumes "rb_inv s" "Overwrite v s = Some s'"
  shows "rb_inv s'"
proof -
  let ?s0 = "if maxSize s > 0 \<and> Len s \<ge> maxSize s
            then (let t = s\<lparr>r := r s + 1\<rparr> in if r t = size_rb t then t\<lparr>r := 0\<rparr> else t)
            else s"
  have "rb_inv ?s0"
    using assms(1) by (auto simp: rb_inv_def Let_def)
  from put_inv [OF this, of v] assms(2) show ?thesis
    by (auto simp: Overwrite_put simp del: split_paired_Ex)
qed

lemma reachable_inv: "reachable s \<Longrightarrow> rb_inv s"
proof (induction rule: reachable.induct)
  case (r_New n ms s)
  then show ?case by (rule NewOf_inv)
next
  case (r_Read s x s')
  show ?case
  proof (cases "r s = w s")
    case True
    with r_Read show ?thesis by (simp add: Read_def)
  next
    case False
    with r_Read Read_nonempty [of s] advance_r [of s] show ?thesis by simp
  qed
next
  case (r_RRead s x s')
  show ?case
  proof (cases "r s = w s")
    case True
    with r_RRead show ?thesis by (simp add: RRead_def)
  next
    case False
    with r_RRead RRead_nonempty [of s] retreat_w [of s] show ?thesis by simp
  qed
next
  case (r_Write s v e s' e')
  then show ?case by (auto dest: Write_inv)
next
  case (r_Overwrite s v s')
  then show ?case by (auto dest: Overwrite_inv)
next
  case (r_Truncate s n s')
  with Truncate_inv [of s n] show ?case by auto
next
  case (r_Reset s s')
  with Reset_inv [of s] show ?case by auto
next
  case (r_SetMaxSize s n m s')
  with SetMaxSize_inv [of s n] show ?case by auto
next
  case (r_SetOnDiscards s fn)
  then show ?case by (cases fn) (auto simp: SetOnDiscards_def rb_inv_def)
qed

subsection \<open>Sequences of writes and the draining loop\<close>

lemma rb_inv_discards [simp]: "rb_inv (s\<lparr>discards := d\<rparr>) = rb_inv s"
  by (simp add: rb_inv_def)

lemma contents_discards [simp]: "contents (s\<lparr>discards := d\<rparr>) = contents s"
  by (simp add: contents_def)

lemma put_no_grow:
  assumes "rb_inv s" "(if w s + 1 = size_rb s then 0 else w s + 1) \<noteq> r s"
  shows "put v s = Some (s\<lparr>buf := (buf s)[nat (w s) := v],
                            w := (if w s + 1 = size_rb s then 0 else w s + 1)\<rparr>)"
proof -
  from assms(1) have "store (buf s) (w s) v = Some ((buf s)[nat (w s) := v])"
    by (simp add: store_def rb_inv_def)
  then show ?thesis
    unfolding put_def using assms(2) by (auto simp: Let_def)
qed

lemma Len_discards [simp]: "Len (s\<lparr>discards := d\<rparr>) = Len s"
  by (simp add: Len_def)

lemma Write_room:
  assumes "rb_inv s" "\<not> (0 < maxSize s \<and> maxSize s \<le> Len s)"
  shows "\<exists>s'. Write v s e = Some (s', e) \<and> rb_inv s' \<and> contents s' = contents s @ [v] \<and>
           maxSize s' = maxSize s \<and> discards s' = discards s \<and> onDiscards s' = onDiscards s"
  using put_inv [OF assms(1), of v] assms(2) by (auto simp: Write_put)

lemma Write_discard:
  assumes "0 < maxSize s" "maxSize s \<le> Len s"
  shows "Write v s e = Some (s\<lparr>discards := discards s + 1\<rparr>,
                             case onDiscards s of None \<Rightarrow> e | Some fn \<Rightarrow> fn v e)"
  using assms by (simp add: Write_put)

lemma Writes_append:
  "Writes (xs @ ys) s e =
     (case Writes xs s e of None \<Rightarrow> None | Some (s1, e1) \<Rightarrow> Writes ys s1 e1)"
  by (induction xs arbitrary: s e) (auto split: option.splits)

lemma Writes_room:
  assumes "rb_inv s" "0 < maxSize s \<longrightarrow> int (length (contents s) + length vs) \<le> maxSize s"
  shows "\<exists>s'. Writes vs s e = Some (s', e) \<and> rb_inv s' \<and> contents s' = contents s @ vs \<and>
           maxSize s' = maxSize s \<and> discards s' = discards s \<and> onDiscards s' = onDiscards s"
  using assms
proof (induction vs arbitrary: s)
  case Nil
  then show ?case by simp
next
  case (Cons v vs)
  from Cons.prems have "\<not> (0 < maxSize s \<and> maxSize s \<le> Len s)"
    by (auto simp: Len_contents)
  from Write_room [OF Cons.prems(1) this, of v e]
  obtain s1 where s1: "Write v s e = Some (s1, e)" "rb_inv s1" "contents s1 = contents s @ [v]"
    "maxSize s1 = maxSize s" "discards s1 = discards s" "onDiscards s1 = onDiscards s"
    by blast
  with Cons.prems have "0 < maxSize s1 \<longrightarrow> int (length (contents s1) + length vs) \<le> maxSize s1"
    by simp
  from Cons.IH [OF s1(2) this] s1 show ?case by auto
qed

lemma Writes_discard:
  assumes "0 < maxSize s" "maxSize s \<le> Len s"
  shows "Writes vs s e =
           Some (s\<lparr>discards := discards s + of_nat (length vs)\<rparr>,
                 fold (\<lambda>v e. case onDiscards s of None \<Rightarrow> e | Some fn \<Rightarrow> fn v e) vs e)"
  using assms
proof (induction vs arbitrary: s e)
  case Nil
  then show ?case by simp
next
  case (Cons v vs)
  let ?s1 = "s\<lparr>discards := discards s + 1\<rparr>"
  have "0 < maxSize ?s1" "maxSize ?s1 \<le> Len ?s1" using Cons.prems by simp_all
  from Cons.IH [OF this] Cons.prems show ?case
    by (simp add: Write_discard add.assoc)
qed

lemma drain_contents:
  assumes "rb_inv s" "length (contents s) < fuel"
  shows "\<exists>sd. drain fuel s = Some (contents s, sd) \<and> r sd = w sd"
  using assms
proof (induction fuel arbitrary: s)
  case 0
  then show ?case by simp
next
  case (Suc k)
  show ?case
  proof (cases "r s = w s")
    case True
    with Suc.prems show ?thesis
      by (simp add: Read_def contents_Nil_iff [THEN iffD2])
  next
    case False
    let ?s1 = "s\<lparr>r := (if r s + 1 = size_rb s then 0 else r s + 1)\<rparr>"
    from advance_r [OF Suc.prems(1) False]
    have s1: "rb_inv ?s1" "contents s = (buf s ! nat (r s)) # contents ?s1"
      by simp_all
    with Suc.prems have "length (contents ?s1) < k" by simp
    from Suc.IH [OF s1(1) this] obtain sd where
      "drain k ?s1 = Some (contents ?s1, sd)" "r sd = w sd" by blast
    with s1(2) show ?thesis
      by (simp add: Read_nonempty [OF Suc.prems(1) False])
  qed
qed

lemma Overwrite_step:
  assumes "rb_inv s"
  shows "\<exists>s'. Overwrite v s = Some s' \<and> rb_inv s' \<and>
           contents s' = (if 0 < maxSize s \<and> maxSize s \<le> Len s
                          then tl (contents s) else contents s) @ [v] \<and>
           maxSize s' = maxSize s \<and> discards s' = discards s \<and> onDiscards s' = onDiscards s"
proof (cases "0 < maxSize s \<and> maxSize s \<le> Len s")
  case False
  with put_inv [OF assms, of v] show ?thesis
    by (auto simp: Overwrite_put)
next
  case True
  with Len_0_iff [OF assms] have ne: "r s \<noteq> w s" by auto
  let ?s0 = "s\<lparr>r := (if r s + 1 = size_rb s then 0 else r s + 1)\<rparr>"
  from advance_r [OF assms ne]
  have s0: "rb_inv ?s0" "contents s = (buf s ! nat (r s)) # contents ?s0" by simp_all
  have "Overwrite v s = put v ?s0"
    using True by (simp add: Overwrite_put advance_r_eq)
  with put_inv [OF s0(1), of v] s0(2) True show ?thesis
    by auto
qed

lemma Overwrites_last:
  assumes "rb_inv s" "0 < maxSize s" "Len s \<le> maxSize s"
  shows "\<exists>s'. Overwrites vs s = Some s' \<and> rb_inv s' \<and> maxSize s' = maxSize s \<and>
           discards s' = discards s \<and>
           contents s' = drop (length (contents s @ vs) - nat (maxSize s)) (contents s @ vs)"
  using assms
proof (induction vs arbitrary: s)
  case Nil
  then show ?case by (simp add: Len_contents)
next
  case (Cons v vs)
  from Overwrite_step [OF Cons.prems(1), of v]
  obtain s1 where s1: "Overwrite v s = Some s1" "rb_inv s1"
    "contents s1 = (if 0 < maxSize s \<and> maxSize s \<le> Len s
                          then tl (contents s) else contents s) @ [v]"
    "maxSize s1 = maxSize s" "discards s1 = discards s"
    by blast
  have len1: "Len s1 \<le> maxSize s1"
    using Cons.prems s1 by (auto simp: Len_contents)
  from Cons.IH [OF s1(2) _ len1] s1 Cons.prems(2)
  obtain s' where s': "Overwrites vs s1 = Some s'" "rb_inv s'" "maxSize s' = maxSize s"
    "discards s' = discards s"
    "contents s' = drop (length (contents s1 @ vs) - nat (maxSize s)) (contents s1 @ vs)"
    by auto
  have "drop (length (contents s1 @ vs) - nat (maxSize s)) (contents s1 @ vs) =
        drop (length (contents s @ v # vs) - nat (maxSize s)) (contents s @ v # vs)"
  proof (cases "maxSize s \<le> Len s")
    case True
    with Cons.prems have eq: "int (length (contents s)) = maxSize s"
      by (simp add: Len_contents)
    then obtain x c where c: "contents s = x # c"
      using Cons.prems(2) by (cases "contents s") auto
    with eq have "nat (maxSize s) = Suc (length c)" by auto
    with c True Cons.prems s1 show ?thesis by simp
  next
    case False
    with s1 show ?thesis by simp
  qed
  with s1 s' show ?case by simp
qed

subsection \<open>Truncate and SetMaxSize, branch by branch\<close>

text \<open>
  With \<open>n > 0\<close> and more than \<open>n\<close> elements, the reallocating branch and the in-place
  branch for a wrapped buffer keep exactly the last \<open>n\<close> elements. The in-place branch
  for \<open>r < w\<close> leaves \<open>r + n\<close> elements, which is \<open>n\<close> only for \<open>r = 0\<close>.
\<close>

lemma Truncate_noop: "0 < n \<Longrightarrow> Len s \<le> n \<Longrightarrow> Truncate n s = Some s"
  by (simp add: Truncate_def)

lemma Truncate_realloc:
  assumes "rb_inv s" "0 < n" "n < Len s" "n * 2 < size_rb s"
  shows "\<exists>s'. Truncate n s = Some s' \<and> rb_inv s' \<and> size_rb s' = n + 1 \<and>
           contents s' = drop (length (contents s) - nat n) (contents s)"
proof -
  define d where "d = drop (length (contents s) - nat n) (contents s)"
  obtain q where q: "n = int q" "0 < q" using assms(2) by (metis zero_less_imp_eq_int)
  have ld: "length d = q"
    using assms q by (simp add: Len_contents d_def)
  have pk: "RPeekN n s = Some d"
    using assms by (simp add: RPeekN_inv d_def)
  have mk: "make_slice (n + 1) = Some (0 # replicate q (0::'a))"
    using q by (simp add: make_slice_def nat_int_Suc)
  have "drop q (0 # replicate q (0::'a)) = [0]"
    by (induction q) simp_all
  then have cp: "copy (0 # replicate q (0::'a)) d = d @ [0]"
    using ld by (simp add: copy_def)
  define s' where "s' = s\<lparr>r := 0, w := n, size_rb := n + 1, buf := d @ [0]\<rparr>"
  have "Truncate n s = Some s'"
    using assms by (simp add: Truncate_def pk mk cp Let_def s'_def)
  moreover have "rb_inv s'"
    using assms(1,2) ld q(1) by (simp add: rb_inv_def s'_def)
  moreover have "contents s' = d"
    using ld q(1) by (simp add: contents_def s'_def)
  moreover have "size_rb s' = n + 1"
    by (simp add: s'_def)
  ultimately show ?thesis unfolding d_def by blast
qed

lemma Truncate_in_place_wrapped:
  assumes "rb_inv s" "0 < n" "n < Len s" "\<not> n * 2 < size_rb s" "w s < r s"
  shows "\<exists>s'. Truncate n s = Some s' \<and> rb_inv s' \<and> size_rb s' = size_rb s \<and>
           contents s' = drop (length (contents s) - nat n) (contents s)"
proof -
  from assms(1) obtain c k j where c: "size_rb s = int c" "length (buf s) = c" "r s = int k"
      "w s = int j" "k < c" "j < c" "2 \<le> c" "2 \<le> initialSize s"
    by (rule rb_inv_nat)
  obtain q where q: "n = int q" "0 < q" using assms(2) by (metis zero_less_imp_eq_int)
  from assms c q have jk: "j < k" and len: "q < c - k + j"
    by (auto simp: Len_def)
  have cs: "contents s = drop k (buf s) @ take j (buf s)"
    using c jk by (simp add: contents_def)
  show ?thesis
  proof (cases "q \<le> j")
    case True
    let ?s' = "s\<lparr>r := int (j - q)\<rparr>"
    have "Truncate n s = Some ?s'"
      using assms c q True by (simp add: Truncate_def Let_def of_nat_diff)
    moreover have "rb_inv ?s'"
      using assms(1) c by (simp add: rb_inv_def)
    moreover have "contents ?s' = take q (drop (j - q) (buf s))"
      using c True by (simp add: contents_def nat_int_diff)
    moreover have "drop (length (contents s) - nat n) (contents s) = take q (drop (j - q) (buf s))"
    proof -
      have "length (contents s) - q = (c - k) + (j - q)"
        using c True jk by (simp add: cs)
      then have "drop (length (contents s) - q) (contents s) = drop (j - q) (take j (buf s))"
        using c by (simp add: cs)
      also have "\<dots> = take q (drop (j - q) (buf s))"
        using True by (simp add: drop_take)
      finally show ?thesis using q by simp
    qed
    ultimately show ?thesis by simp
  next
    case False
    let ?s' = "s\<lparr>r := int (c + j - q)\<rparr>"
    have "Truncate n s = Some ?s'"
      using assms c q False len by (simp add: Truncate_def Let_def of_nat_diff)
    moreover have "rb_inv ?s'"
      using assms(1) c False q by (simp add: rb_inv_def)
    moreover have "contents ?s' = drop (c + j - q) (buf s) @ take j (buf s)"
    proof -
      have "\<not> c + j - q \<le> j" "\<not> c \<le> q" "nat (int c + int j - int q) = c + j - q"
        using False len jk c by linarith+
      with c show ?thesis by (simp add: contents_def)
    qed
    moreover have "drop (length (contents s) - nat n) (contents s) =
                   drop (c + j - q) (buf s) @ take j (buf s)"
    proof -
      have "length (contents s) - q = c + j - q - k" "c + j - q - k \<le> c - k"
        "c + j - q - k + k = c + j - q"
        using c False jk len by (simp_all add: cs)
      then show ?thesis
        using c q by (simp add: cs)
    qed
    ultimately show ?thesis by simp
  qed
qed

lemma Truncate_in_place_unwrapped:
  assumes "rb_inv s" "0 < n" "n < Len s" "\<not> n * 2 < size_rb s" "r s < w s"
  shows "Truncate n s = Some (s\<lparr>r := w s - r s - n\<rparr>) \<and>
         rb_inv (s\<lparr>r := w s - r s - n\<rparr>) \<and>
         Len (s\<lparr>r := w s - r s - n\<rparr>) = r s + n \<and>
         (r s = 0 \<longrightarrow> contents (s\<lparr>r := w s - r s - n\<rparr>) =
                        drop (length (contents s) - nat n) (contents s))"
proof -
  from assms(1) obtain c k j where c: "size_rb s = int c" "length (buf s) = c" "r s = int k"
      "w s = int j" "k < c" "j < c" "2 \<le> c" "2 \<le> initialSize s"
    by (rule rb_inv_nat)
  obtain q where q: "n = int q" "0 < q" using assms(2) by (metis zero_less_imp_eq_int)
  from assms c q have kj: "k < j" and len: "q < j - k"
    by (auto simp: Len_def)
  have t: "Truncate n s = Some (s\<lparr>r := w s - r s - n\<rparr>)"
    using assms by (simp add: Truncate_def Let_def)
  have i: "rb_inv (s\<lparr>r := w s - r s - n\<rparr>)"
    using assms(1) c q len by (simp add: rb_inv_def)
  have l: "Len (s\<lparr>r := w s - r s - n\<rparr>) = r s + n"
    using c q len by (simp add: Len_def)
  have "contents (s\<lparr>r := w s - r s - n\<rparr>) = drop (length (contents s) - nat n) (contents s)"
    if "r s = 0"
  proof -
    from that c have k0: "k = 0" by simp
    have "int j - int q = int (j - q)" using len by simp
    then have "contents (s\<lparr>r := w s - r s - n\<rparr>) = take q (drop (j - q) (buf s))"
      using c q k0 len by (simp add: contents_def nat_int_diff)
    moreover have "contents s = take j (buf s)"
      using c k0 by (simp add: contents_def)
    ultimately show ?thesis
      using c q len k0 by (simp add: drop_take)
  qed
  with t i l show ?thesis by simp
qed

lemma SetMaxSize_cases:
  "SetMaxSize 0 s = Some (0, s\<lparr>maxSize := 0\<rparr>)"
  "0 < n \<Longrightarrow> n < 2 \<Longrightarrow> SetMaxSize n s = Some (maxSize s, s)"
  "n < 0 \<Longrightarrow> SetMaxSize n s = Some (maxSize s, s)"
  "rb_inv s \<Longrightarrow> 2 \<le> n \<Longrightarrow> \<exists>s'. SetMaxSize n s = Some (n, s') \<and> maxSize s' = n"
proof -
  show "SetMaxSize 0 s = Some (0, s\<lparr>maxSize := 0\<rparr>)"
    by (simp add: SetMaxSize_def)
  show "0 < n \<Longrightarrow> n < 2 \<Longrightarrow> SetMaxSize n s = Some (maxSize s, s)"
    by (simp add: SetMaxSize_def minBufferSize_def)
  show "n < 0 \<Longrightarrow> SetMaxSize n s = Some (maxSize s, s)"
    by (simp add: SetMaxSize_def minBufferSize_def)
  assume a: "rb_inv s" "2 \<le> n"
  then have "rb_inv (s\<lparr>maxSize := n\<rparr>)" by (simp add: rb_inv_def)
  from Truncate_inv [OF this, of n] a
  show "\<exists>s'. SetMaxSize n s = Some (n, s') \<and> maxSize s' = n"
    by (auto simp: SetMaxSize_def minBufferSize_def)
qed

section \<open>Write and Overwrite on an unbounded buffer\<close>

text \<open>
  C10. On a buffer with \<open>maxSize = 0\<close>, \<open>Write v\<close> and \<open>Overwrite v\<close> give the same
  buffer (or panic together), and \<open>Write\<close> leaves the outside world as it was: the
  callback is not invoked.
\<close>

theorem Write_eq_Overwrite_unbounded:
  "maxSize s = 0 \<Longrightarrow> Write v s e = map_option (\<lambda>s'. (s', e)) (Overwrite v s)"
  by (cases "store (buf s) (w s) v")
     (auto simp: Write_def Overwrite_def Let_def split: option.splits bind_splits)

theorem Write_eq_Overwrite_unbounded_witness:
  "maxSize (\<lparr>buf = [5, 0], initialSize = 2, size_rb = 2, maxSize = 0, discards = 0,
             r = 0, w = 1, onDiscards = None\<rparr> :: (int, unit) RingBufferOf) = 0 \<and>
   Write 7 (\<lparr>buf = [5, 0], initialSize = 2, size_rb = 2, maxSize = 0, discards = 0,
             r = 0, w = 1, onDiscards = None\<rparr> :: (int, unit) RingBufferOf) () =
   map_option (\<lambda>s'. (s', ()))
     (Overwrite 7 \<lparr>buf = [5, 0], initialSize = 2, size_rb = 2, maxSize = 0, discards = 0,
             r = 0, w = 1, onDiscards = None\<rparr>) \<and>
   Overwrite 7 (\<lparr>buf = [5, 0], initialSize = 2, size_rb = 2, maxSize = 0, discards = 0,
             r = 0, w = 1, onDiscards = None\<rparr> :: (int, unit) RingBufferOf) =
   Some \<lparr>buf = [5, 7, 0, 0], initialSize = 2, size_rb = 4, maxSize = 0, discards = 0,
             r = 0, w = 2, onDiscards = None\<rparr>"
  using Write_eq_Overwrite_unbounded [of "\<lparr>buf = [5, 0], initialSize = 2, size_rb = 2,
             maxSize = 0, discards = 0, r = 0, w = 1, onDiscards = None\<rparr> :: (int, unit) RingBufferOf"
             7 "()"]
  by (simp add: Overwrite_def store_def grow_def make_slice_def slice_def copy_at_def copy_def
      Let_def numeral_eq_Suc)

section \<open>Construction\<close>

text \<open>
  C8, as the code has it. \<open>NewOf\<close> gives an empty buffer whose capacity is the initial
  size clamped up to 2, bounded by \<open>m\<close> when \<open>m\<close> is at least 2 and unbounded otherwise
  (also when no bound is passed). \<open>NewFixedOf\<close> passes the unclamped initial size as the
  bound, so the bound is the initial size only when that is at least 2; below 2 the buffer
  is unbounded.
\<close>

theorem NewOf_constructs:
  "NewOf i [m] =
     Some \<lparr>buf = replicate (nat (max i 2)) 0, initialSize = max i 2, size_rb = max i 2,
           maxSize = (if 2 \<le> m then m else 0), discards = 0, r = 0, w = 0, onDiscards = None\<rparr> \<and>
   NewOf i [] =
     Some \<lparr>buf = replicate (nat (max i 2)) 0, initialSize = max i 2, size_rb = max i 2,
           maxSize = 0, discards = 0, r = 0, w = 0, onDiscards = None\<rparr> \<and>
   NewFixedOf i =
     Some \<lparr>buf = replicate (nat (max i 2)) 0, initialSize = max i 2, size_rb = max i 2,
           maxSize = (if 2 \<le> i then i else 0), discards = 0, r = 0, w = 0, onDiscards = None\<rparr>"
  by (simp add: NewFixedOf_def NewOf_def minBufferSize_def make_slice_def max_def)

text \<open>\<open>NewFixedOf(1)\<close> is unbounded: its bound is 0, not 1.\<close>

theorem NewFixedOf_small_counterexample:
  "map_option maxSize (NewFixedOf 1 :: (int, unit) RingBufferOf option) = Some 0 \<and>
   map_option maxSize (NewFixedOf 1 :: (int, unit) RingBufferOf option) \<noteq> Some 1"
  by (simp add: NewFixedOf_def NewOf_def minBufferSize_def make_slice_def)

section \<open>Truncate in place\<close>

text \<open>
  C1 at a buffer of capacity 8 holding 1..6 behind a read cursor at 1 (seven writes, one
  read). \<open>Truncate(4)\<close> takes the branch for \<open>w > r\<close> without reallocation and sets the
  read cursor to \<open>w - r - n = 2\<close> where \<open>w - n = 3\<close> drops all but the last four: five
  elements stay. The other branches do what the claim says (\<open>Truncate_noop\<close>,
  \<open>Truncate_realloc\<close>, \<open>Truncate_in_place_wrapped\<close>), and so does this one for \<open>r = 0\<close>
  (\<open>Truncate_in_place_unwrapped\<close>).
\<close>

theorem Truncate_in_place_keeps_too_much:
  "(do { s0 \<leftarrow> (NewOf 8 [] :: (int, unit) RingBufferOf option);
         (s1, _) \<leftarrow> Writes [0, 1, 2, 3, 4, 5, 6] s0 ();
         (_, s2) \<leftarrow> Read s1;
         before \<leftarrow> PeekAll s2;
         s3 \<leftarrow> Truncate 4 s2;
         after \<leftarrow> PeekAll s3;
         Some (before, after, Len s3) })
   = Some ([1, 2, 3, 4, 5, 6], [2, 3, 4, 5, 6], 5)"
  by (simp add: NewOf_def minBufferSize_def make_slice_def Write_def Len_def store_def Read_def
      index_def PeekAll_def slice_def Truncate_def Let_def numeral_eq_Suc)

text \<open>
  C5 at the same buffer: \<open>SetMaxSize(4)\<close> returns 4 and stores the bound 4, and the
  buffer still holds five elements.
\<close>

theorem SetMaxSize_leaves_more_than_bound:
  "(do { s0 \<leftarrow> (NewOf 8 [] :: (int, unit) RingBufferOf option);
         (s1, _) \<leftarrow> Writes [0, 1, 2, 3, 4, 5, 6] s0 ();
         (_, s2) \<leftarrow> Read s1;
         (m, s3) \<leftarrow> SetMaxSize 4 s2;
         after \<leftarrow> PeekAll s3;
         Some (m, MaxSize s3, Len s3, after) })
   = Some (4, 4, 5, [2, 3, 4, 5, 6])"
  by (simp add: NewOf_def minBufferSize_def make_slice_def Write_def Len_def store_def Read_def
      index_def PeekAll_def slice_def Truncate_def SetMaxSize_def MaxSize_def Let_def
      numeral_eq_Suc)

section \<open>Reading from an empty buffer\<close>

text \<open>
  C6. In a buffer that satisfies the invariant (every reachable one does, by
  \<open>reachable_inv\<close>) the cursors are equal exactly when \<open>Len\<close> is 0. With equal cursors
  \<open>Read\<close>, \<open>RRead\<close>, \<open>Peek\<close> and \<open>RPeek\<close> return the zero value with \<open>ErrIsEmpty\<close> and
  the buffer is returned as it was; with different cursors each of them returns a value
  without error and without panic.
\<close>

theorem empty_read_error:
  assumes "rb_inv s"
  shows "(r s = w s \<longleftrightarrow> Len s = 0) \<and>
         (r s = w s \<longrightarrow>
            Read s = Some ((0, Some ErrIsEmpty), s) \<and>
            RRead s = Some ((0, Some ErrIsEmpty), s) \<and>
            Peek s = Some (0, Some ErrIsEmpty) \<and>
            RPeek s = Some (0, Some ErrIsEmpty)) \<and>
         (r s \<noteq> w s \<longrightarrow>
            (\<exists>v s'. Read s = Some ((v, None), s')) \<and>
            (\<exists>v s'. RRead s = Some ((v, None), s')) \<and>
            (\<exists>v. Peek s = Some (v, None)) \<and>
            (\<exists>v. RPeek s = Some (v, None)))"
proof (intro conjI impI)
  show "r s = w s \<longleftrightarrow> Len s = 0"
    using Len_0_iff [OF assms] by simp
next
  assume "r s = w s"
  then show "Read s = Some ((0, Some ErrIsEmpty), s)"
    and "RRead s = Some ((0, Some ErrIsEmpty), s)"
    and "Peek s = Some (0, Some ErrIsEmpty)"
    and "RPeek s = Some (0, Some ErrIsEmpty)"
    by (simp_all add: Read_def RRead_def Peek_def RPeek_def)
next
  assume ne: "r s \<noteq> w s"
  show "\<exists>v s'. Read s = Some ((v, None), s')"
    using Read_nonempty [OF assms ne] by blast
  show "\<exists>v s'. RRead s = Some ((v, None), s')"
    using RRead_nonempty [OF assms ne] by blast
  show "\<exists>v. Peek s = Some (v, None)"
    using Peek_nonempty [OF assms ne] by blast
  show "\<exists>v. RPeek s = Some (v, None)"
    using RPeek_nonempty [OF assms ne] by blast
qed

theorem empty_read_error_witness:
  "rb_inv (\<lparr>buf = [0, 0], initialSize = 2, size_rb = 2, maxSize = 0, discards = 0,
            r = 0, w = 0, onDiscards = None\<rparr> :: (int, unit) RingBufferOf) \<and>
   Len (\<lparr>buf = [0, 0], initialSize = 2, size_rb = 2, maxSize = 0, discards = 0,
            r = 0, w = 0, onDiscards = None\<rparr> :: (int, unit) RingBufferOf) = 0 \<and>
   Read (\<lparr>buf = [0, 0], initialSize = 2, size_rb = 2, maxSize = 0, discards = 0,
            r = 0, w = 0, onDiscards = None\<rparr> :: (int, unit) RingBufferOf) =
     Some ((0, Some ErrIsEmpty),
           \<lparr>buf = [0, 0], initialSize = 2, size_rb = 2, maxSize = 0, discards = 0,
            r = 0, w = 0, onDiscards = None\<rparr>) \<and>
   RPeek (\<lparr>buf = [0, 0], initialSize = 2, size_rb = 2, maxSize = 0, discards = 0,
            r = 0, w = 0, onDiscards = None\<rparr> :: (int, unit) RingBufferOf) =
     Some (0, Some ErrIsEmpty) \<and>
   rb_inv (\<lparr>buf = [5, 0], initialSize = 2, size_rb = 2, maxSize = 0, discards = 0,
            r = 0, w = 1, onDiscards = None\<rparr> :: (int, unit) RingBufferOf) \<and>
   Len (\<lparr>buf = [5, 0], initialSize = 2, size_rb = 2, maxSize = 0, discards = 0,
            r = 0, w = 1, onDiscards = None\<rparr> :: (int, unit) RingBufferOf) = 1 \<and>
   Read (\<lparr>buf = [5, 0], initialSize = 2, size_rb = 2, maxSize = 0, discards = 0,
            r = 0, w = 1, onDiscards = None\<rparr> :: (int, unit) RingBufferOf) =
     Some ((5, None),
           \<lparr>buf = [5, 0], initialSize = 2, size_rb = 2, maxSize = 0, discards = 0,
            r = 1, w = 1, onDiscards = None\<rparr>) \<and>
   RRead (\<lparr>buf = [5, 0], initialSize = 2, size_rb = 2, maxSize = 0, discards = 0,
            r = 0, w = 1, onDiscards = None\<rparr> :: (int, unit) RingBufferOf) =
     Some ((5, None),
           \<lparr>buf = [5, 0], initialSize = 2, size_rb = 2, maxSize = 0, discards = 0,
            r = 0, w = 0, onDiscards = None\<rparr>) \<and>
   Peek (\<lparr>buf = [5, 0], initialSize = 2, size_rb = 2, maxSize = 0, discards = 0,
            r = 0, w = 1, onDiscards = None\<rparr> :: (int, unit) RingBufferOf) = Some (5, None) \<and>
   RPeek (\<lparr>buf = [5, 0], initialSize = 2, size_rb = 2, maxSize = 0, discards = 0,
            r = 0, w = 1, onDiscards = None\<rparr> :: (int, unit) RingBufferOf) = Some (5, None)"
  using empty_read_error [of "\<lparr>buf = [0, 0], initialSize = 2, size_rb = 2, maxSize = 0,
            discards = 0, r = 0, w = 0, onDiscards = None\<rparr> :: (int, unit) RingBufferOf"]
        empty_read_error [of "\<lparr>buf = [5, 0], initialSize = 2, size_rb = 2, maxSize = 0,
            discards = 0, r = 0, w = 1, onDiscards = None\<rparr> :: (int, unit) RingBufferOf"]
  by (simp add: rb_inv_def Len_def Read_def RRead_def Peek_def RPeek_def index_def Let_def)

section \<open>The growth schedule\<close>

text \<open>
  C9. \<open>grow\<close> on a buffer that satisfies the invariant returns a buffer whose capacity is
  twice the old one below 1024 and the old one plus a quarter of it (integer division)
  from 1024 on, which is strictly more. \<open>Write\<close> and \<open>Overwrite\<close> change the capacity
  exactly when the write cursor, advanced with wraparound, equals the read cursor (for
  \<open>Write\<close>: and the value is not discarded; for \<open>Overwrite\<close>: the read cursor after its
  own advance, when the bound is reached), and then to the capacity of the schedule.
\<close>

theorem growth_schedule:
  assumes "rb_inv s"
  shows "(\<exists>s'. grow s = Some s' \<and>
            Capacity s' = (if Capacity s < 1024 then Capacity s * 2
                           else Capacity s + Capacity s div 4) \<and>
            Capacity s < Capacity s') \<and>
         (\<forall>v e. \<exists>s' e'. Write v s e = Some (s', e') \<and>
            Capacity s' =
              (if \<not> (0 < maxSize s \<and> maxSize s \<le> Len s) \<and>
                  (if w s + 1 = Capacity s then 0 else w s + 1) = r s
               then (if Capacity s < 1024 then Capacity s * 2 else Capacity s + Capacity s div 4)
               else Capacity s)) \<and>
         (\<forall>v. \<exists>s'. Overwrite v s = Some s' \<and>
            Capacity s' =
              (if (if w s + 1 = Capacity s then 0 else w s + 1) =
                  (if 0 < maxSize s \<and> maxSize s \<le> Len s
                   then (if r s + 1 = Capacity s then 0 else r s + 1) else r s)
               then (if Capacity s < 1024 then Capacity s * 2 else Capacity s + Capacity s div 4)
               else Capacity s))"
proof (intro conjI allI)
  from assms have "2 \<le> size_rb s" by (simp add: rb_inv_def)
  from grow_size_gt [OF this] grow_inv [OF assms]
  show "\<exists>s'. grow s = Some s' \<and>
            Capacity s' = (if Capacity s < 1024 then Capacity s * 2
                           else Capacity s + Capacity s div 4) \<and>
            Capacity s < Capacity s'"
    by (simp add: Capacity_def)
next
  fix v e
  from put_inv [OF assms, of v]
  show "\<exists>s' e'. Write v s e = Some (s', e') \<and>
            Capacity s' =
              (if \<not> (0 < maxSize s \<and> maxSize s \<le> Len s) \<and>
                  (if w s + 1 = Capacity s then 0 else w s + 1) = r s
               then (if Capacity s < 1024 then Capacity s * 2 else Capacity s + Capacity s div 4)
               else Capacity s)"
    by (auto simp: Write_put Capacity_def)
next
  fix v
  let ?s0 = "if maxSize s > 0 \<and> Len s \<ge> maxSize s
            then (let t = s\<lparr>r := r s + 1\<rparr> in if r t = size_rb t then t\<lparr>r := 0\<rparr> else t)
            else s"
  have inv0: "rb_inv ?s0"
    using assms by (auto simp: rb_inv_def Let_def)
  have "w ?s0 = w s" "size_rb ?s0 = size_rb s"
    "r ?s0 = (if 0 < maxSize s \<and> maxSize s \<le> Len s
              then (if r s + 1 = size_rb s then 0 else r s + 1) else r s)"
    by (simp_all add: Let_def)
  with put_inv [OF inv0, of v]
  show "\<exists>s'. Overwrite v s = Some s' \<and>
            Capacity s' =
              (if (if w s + 1 = Capacity s then 0 else w s + 1) =
                  (if 0 < maxSize s \<and> maxSize s \<le> Len s
                   then (if r s + 1 = Capacity s then 0 else r s + 1) else r s)
               then (if Capacity s < 1024 then Capacity s * 2 else Capacity s + Capacity s div 4)
               else Capacity s)"
    unfolding Overwrite_put Capacity_def by (elim exE conjE) (simp only: , simp)
qed

theorem growth_schedule_witness:
  "rb_inv (\<lparr>buf = [5, 0], initialSize = 2, size_rb = 2, maxSize = 0, discards = 0,
            r = 0, w = 1, onDiscards = None\<rparr> :: (int, unit) RingBufferOf) \<and>
   map_option Capacity
     (grow (\<lparr>buf = [5, 0], initialSize = 2, size_rb = 2, maxSize = 0, discards = 0,
            r = 0, w = 1, onDiscards = None\<rparr> :: (int, unit) RingBufferOf)) = Some 4 \<and>
   map_option (\<lambda>p. Capacity (fst p))
     (Write 7 (\<lparr>buf = [5, 0], initialSize = 2, size_rb = 2, maxSize = 0, discards = 0,
            r = 0, w = 1, onDiscards = None\<rparr> :: (int, unit) RingBufferOf) ()) = Some 4 \<and>
   map_option Capacity
     (Overwrite 7 (\<lparr>buf = [5, 0], initialSize = 2, size_rb = 2, maxSize = 0, discards = 0,
            r = 0, w = 1, onDiscards = None\<rparr> :: (int, unit) RingBufferOf)) = Some 4 \<and>
   map_option (\<lambda>p. Capacity (fst p))
     (Write 7 (\<lparr>buf = [0, 0], initialSize = 2, size_rb = 2, maxSize = 0, discards = 0,
            r = 0, w = 0, onDiscards = None\<rparr> :: (int, unit) RingBufferOf) ()) = Some 2"
  using growth_schedule [of "\<lparr>buf = [5, 0], initialSize = 2, size_rb = 2, maxSize = 0,
            discards = 0, r = 0, w = 1, onDiscards = None\<rparr> :: (int, unit) RingBufferOf"]
  by (simp add: rb_inv_def Capacity_def Write_def Overwrite_def Len_def store_def grow_def
      make_slice_def slice_def copy_at_def copy_def Let_def numeral_eq_Suc)

section \<open>Cursors and capacity\<close>

text \<open>
  C7. In every state reachable from a constructor through the public operations both
  cursors lie in \<open>[0, capacity)\<close>, \<open>Len\<close> is \<open>(w - r + capacity) mod capacity\<close> and the
  capacity is at least \<open>Len + 1\<close>; the cursors are equal exactly when \<open>Len\<close> is 0 and
  exactly when \<open>PeekAll\<close> is empty; and no \<open>Write\<close> that stores its value and no
  \<open>Overwrite\<close> ends with equal cursors.
\<close>

theorem cursor_capacity_invariant:
  assumes "reachable s"
  shows "0 \<le> r s \<and> r s < Capacity s \<and> 0 \<le> w s \<and> w s < Capacity s \<and>
         Len s = (w s - r s + Capacity s) mod Capacity s \<and>
         Len s + 1 \<le> Capacity s \<and>
         (r s = w s \<longleftrightarrow> Len s = 0) \<and>
         (r s = w s \<longleftrightarrow> PeekAll s = Some []) \<and>
         (\<forall>v s'. Overwrite v s = Some s' \<longrightarrow> r s' \<noteq> w s') \<and>
         (\<forall>v e s' e'. Write v s e = Some (s', e') \<longrightarrow>
            \<not> (0 < maxSize s \<and> maxSize s \<le> Len s) \<longrightarrow> r s' \<noteq> w s')"
proof -
  from assms have inv: "rb_inv s" by (rule reachable_inv)
  have a: "0 \<le> r s \<and> r s < Capacity s \<and> 0 \<le> w s \<and> w s < Capacity s"
    using inv by (simp add: rb_inv_def Capacity_def)
  have b: "Len s = (w s - r s + Capacity s) mod Capacity s"
    using Len_mod [OF inv] by (simp add: Capacity_def)
  have c: "Len s + 1 \<le> Capacity s"
    using Len_bounds [OF inv] by (simp add: Capacity_def)
  have d: "r s = w s \<longleftrightarrow> Len s = 0"
    using Len_0_iff [OF inv] by simp
  have e: "r s = w s \<longleftrightarrow> PeekAll s = Some []"
    using contents_Nil_iff [OF inv] by (simp add: PeekAll_contents [OF inv])
  have f: "r s' \<noteq> w s'" if "Overwrite v s = Some s'" for v s'
  proof -
    let ?s0 = "if maxSize s > 0 \<and> Len s \<ge> maxSize s
            then (let t = s\<lparr>r := r s + 1\<rparr> in if r t = size_rb t then t\<lparr>r := 0\<rparr> else t)
            else s"
    have "rb_inv ?s0" using inv by (auto simp: rb_inv_def Let_def)
    from put_inv [OF this, of v] that show ?thesis
      unfolding Overwrite_put by (elim exE conjE) simp
  qed
  have g: "r s' \<noteq> w s'"
    if "Write v s e = Some (s', e')" "\<not> (0 < maxSize s \<and> maxSize s \<le> Len s)" for v e s' e'
    using put_inv [OF inv, of v] that by (auto simp: Write_put)
  from a b c d e f g show ?thesis by blast
qed

theorem cursor_capacity_invariant_witness:
  "reachable (\<lparr>buf = [5, 0], initialSize = 2, size_rb = 2, maxSize = 0, discards = 0,
               r = 0, w = 1, onDiscards = None\<rparr> :: (int, unit) RingBufferOf) \<and>
   Capacity (\<lparr>buf = [5, 0], initialSize = 2, size_rb = 2, maxSize = 0, discards = 0,
               r = 0, w = 1, onDiscards = None\<rparr> :: (int, unit) RingBufferOf) = 2 \<and>
   Len (\<lparr>buf = [5, 0], initialSize = 2, size_rb = 2, maxSize = 0, discards = 0,
               r = 0, w = 1, onDiscards = None\<rparr> :: (int, unit) RingBufferOf) = (1 - 0 + 2) mod 2 \<and>
   PeekAll (\<lparr>buf = [5, 0], initialSize = 2, size_rb = 2, maxSize = 0, discards = 0,
               r = 0, w = 1, onDiscards = None\<rparr> :: (int, unit) RingBufferOf) \<noteq> Some []"
proof -
  have r0: "reachable (\<lparr>buf = [0, 0], initialSize = 2, size_rb = 2, maxSize = 0, discards = 0,
               r = 0, w = 0, onDiscards = None\<rparr> :: (int, unit) RingBufferOf)"
    by (rule reachable.r_New [of 2 "[]"])
       (simp add: NewOf_def minBufferSize_def make_slice_def numeral_eq_Suc)
  have r1: "reachable (\<lparr>buf = [5, 0], initialSize = 2, size_rb = 2, maxSize = 0, discards = 0,
               r = 0, w = 1, onDiscards = None\<rparr> :: (int, unit) RingBufferOf)"
    by (rule reachable.r_Write [OF r0, of 5 "()" _ "()"])
       (simp add: Write_def store_def Let_def)
  from r1 cursor_capacity_invariant [OF r1] show ?thesis
    by (simp add: Capacity_def)
qed

section \<open>Growth keeps the data and its order\<close>

text \<open>
  C2. Take an empty unbounded buffer (\<open>maxSize = 0\<close>, equal cursors, anywhere in the
  store) of capacity \<open>c\<close> that satisfies the invariant, and any \<open>c + 1\<close> values. Writing
  them in order succeeds without invoking the callback and leaves a capacity strictly
  greater than \<open>c\<close>; the draining loop then returns, on every fuel above \<open>c + 1\<close>, exactly
  the written values in the order written and stops on an empty buffer.
\<close>

theorem growth_keeps_order:
  assumes "rb_inv s" "maxSize s = 0" "r s = w s" "int (length vs) = Capacity s + 1"
  shows "\<exists>s'. Writes vs s e = Some (s', e) \<and> Capacity s < Capacity s' \<and>
           (\<forall>fuel. length vs < fuel \<longrightarrow>
              (\<exists>sd. drain fuel s' = Some (vs, sd) \<and> IsEmpty sd))"
proof -
  from assms have c0: "contents s = []"
    by (simp add: contents_Nil_iff)
  from assms have "0 < maxSize s \<longrightarrow> int (length (contents s) + length vs) \<le> maxSize s"
    by simp
  from Writes_room [OF assms(1) this, of e] c0
  obtain s' where s': "Writes vs s e = Some (s', e)" "rb_inv s'" "contents s' = vs"
    by auto
  from Len_bounds [OF s'(2)] s'(3) assms(4) have "Capacity s < Capacity s'"
    by (simp add: Len_contents [OF s'(2)] Capacity_def)
  moreover have "\<exists>sd. drain fuel s' = Some (vs, sd) \<and> IsEmpty sd" if "length vs < fuel" for fuel
    using drain_contents [OF s'(2), of fuel] that s'(3) by (simp add: IsEmpty_def)
  ultimately show ?thesis using s'(1) by blast
qed

theorem growth_keeps_order_witness:
  "rb_inv (\<lparr>buf = [9, 0, 0], initialSize = 3, size_rb = 3, maxSize = 0, discards = 0,
            r = 1, w = 1, onDiscards = None\<rparr> :: (int, unit) RingBufferOf) \<and>
   int (length [1, 2, 3, 4 :: int]) =
     Capacity (\<lparr>buf = [9, 0, 0], initialSize = 3, size_rb = 3, maxSize = 0, discards = 0,
            r = 1, w = 1, onDiscards = None\<rparr> :: (int, unit) RingBufferOf) + 1 \<and>
   Writes [1, 2, 3, 4]
     (\<lparr>buf = [9, 0, 0], initialSize = 3, size_rb = 3, maxSize = 0, discards = 0,
            r = 1, w = 1, onDiscards = None\<rparr> :: (int, unit) RingBufferOf) () =
     Some (\<lparr>buf = [1, 2, 3, 4, 0, 0], initialSize = 3, size_rb = 6, maxSize = 0, discards = 0,
            r = 0, w = 4, onDiscards = None\<rparr>, ()) \<and>
   drain 5 (\<lparr>buf = [1, 2, 3, 4, 0, 0], initialSize = 3, size_rb = 6, maxSize = 0, discards = 0,
            r = 0, w = 4, onDiscards = None\<rparr> :: (int, unit) RingBufferOf) =
     Some ([1, 2, 3, 4],
           \<lparr>buf = [1, 2, 3, 4, 0, 0], initialSize = 3, size_rb = 6, maxSize = 0, discards = 0,
            r = 4, w = 4, onDiscards = None\<rparr>)"
  using growth_keeps_order [of "\<lparr>buf = [9, 0, 0], initialSize = 3, size_rb = 3, maxSize = 0,
            discards = 0, r = 1, w = 1, onDiscards = None\<rparr> :: (int, unit) RingBufferOf"
            "[1, 2, 3, 4]" "()"]
  by (simp add: rb_inv_def Capacity_def Write_def Len_def store_def grow_def make_slice_def
      slice_def copy_at_def copy_def Read_def index_def Let_def numeral_eq_Suc)

section \<open>Writing beyond the bound\<close>

text \<open>
  C3. Take an empty buffer with bound \<open>m \<ge> 2\<close> and callback \<open>fn\<close>, and \<open>m + k\<close> values with
  \<open>k > 0\<close>. Writing them in order leaves \<open>Len = m\<close> with the first \<open>m\<close> values stored,
  adds \<open>k\<close> to the discard counter (a \<open>uint64\<close>), and applies the callback to the last
  \<open>k\<close> values, the rejected ones, once each and in the order written. A \<open>Write\<close> on any
  buffer whose bound is reached changes the discard counter only: store, cursors and
  capacity stay as they were.
\<close>

theorem bounded_discard:
  assumes "rb_inv (s :: ('a::zero, 'e) RingBufferOf)" "maxSize s = m" "2 \<le> m" "r s = w s"
    and "onDiscards s = Some fn"
    and "int (length vs) = m + int k" "0 < k"
  shows "(\<exists>s'. Writes vs s e = Some (s', fold fn (drop (nat m) vs) e) \<and>
            length (drop (nat m) vs) = k \<and>
            Len s' = m \<and> PeekAll s' = Some (take (nat m) vs) \<and>
            Discards s' = Discards s + of_nat k) \<and>
         (\<forall>(t :: ('a, 'e) RingBufferOf) v e0. 0 < maxSize t \<and> maxSize t \<le> Len t \<longrightarrow>
            Write v t e0 = Some (t\<lparr>discards := discards t + 1\<rparr>,
                                 case onDiscards t of None \<Rightarrow> e0 | Some f \<Rightarrow> f v e0))"
proof (intro conjI allI impI)
  from assms have c0: "contents s = []"
    by (simp add: contents_Nil_iff)
  have lt: "length (take (nat m) vs) = nat m" and ld: "length (drop (nat m) vs) = k"
    using assms by auto
  have "0 < maxSize s \<longrightarrow> int (length (contents s) + length (take (nat m) vs)) \<le> maxSize s"
    using assms c0 lt by simp
  from Writes_room [OF assms(1) this, of e] c0
  obtain s1 where s1: "Writes (take (nat m) vs) s e = Some (s1, e)" "rb_inv s1"
    "contents s1 = take (nat m) vs" "maxSize s1 = m" "discards s1 = discards s"
    "onDiscards s1 = Some fn"
    using assms by auto
  have len1: "Len s1 = m"
    using assms lt by (simp add: Len_contents [OF s1(2)] s1(3))
  then have full: "0 < maxSize s1" "maxSize s1 \<le> Len s1"
    using assms s1 by simp_all
  let ?s' = "s1\<lparr>discards := discards s1 + of_nat (length (drop (nat m) vs))\<rparr>"
  have "Writes (take (nat m) vs @ drop (nat m) vs) s e =
          Some (?s', fold fn (drop (nat m) vs) e)"
    unfolding Writes_append s1(1) by (simp add: Writes_discard [OF full] s1(6))
  moreover have "rb_inv ?s'" "contents ?s' = take (nat m) vs"
    using s1 by simp_all
  ultimately
  show "\<exists>s'. Writes vs s e = Some (s', fold fn (drop (nat m) vs) e) \<and>
            length (drop (nat m) vs) = k \<and>
            Len s' = m \<and> PeekAll s' = Some (take (nat m) vs) \<and>
            Discards s' = Discards s + of_nat k"
    using len1 ld s1(5) by (auto simp: PeekAll_contents Discards_def)
next
  fix t :: "('a, 'e) RingBufferOf" and v e0
  assume "0 < maxSize t \<and> maxSize t \<le> Len t"
  then show "Write v t e0 = Some (t\<lparr>discards := discards t + 1\<rparr>,
                                 case onDiscards t of None \<Rightarrow> e0 | Some f \<Rightarrow> f v e0)"
    by (simp add: Write_discard)
qed

theorem bounded_discard_witness:
  "rb_inv (\<lparr>buf = [0, 0], initialSize = 2, size_rb = 2, maxSize = 2, discards = 0,
            r = 0, w = 0, onDiscards = Some (\<lambda>v log. log @ [v])\<rparr>
           :: (int, int list) RingBufferOf) \<and>
   Writes [1, 2, 3, 4]
     (\<lparr>buf = [0, 0], initialSize = 2, size_rb = 2, maxSize = 2, discards = 0,
            r = 0, w = 0, onDiscards = Some (\<lambda>v log. log @ [v])\<rparr>
           :: (int, int list) RingBufferOf) [] =
     Some (\<lparr>buf = [1, 2, 0, 0], initialSize = 2, size_rb = 4, maxSize = 2, discards = 2,
            r = 0, w = 2, onDiscards = Some (\<lambda>v log. log @ [v])\<rparr>, [3, 4]) \<and>
   Len (\<lparr>buf = [1, 2, 0, 0], initialSize = 2, size_rb = 4, maxSize = 2, discards = 2,
            r = 0, w = 2, onDiscards = Some (\<lambda>v log. log @ [v])\<rparr>
           :: (int, int list) RingBufferOf) = 2 \<and>
   PeekAll (\<lparr>buf = [1, 2, 0, 0], initialSize = 2, size_rb = 4, maxSize = 2, discards = 2,
            r = 0, w = 2, onDiscards = Some (\<lambda>v log. log @ [v])\<rparr>
           :: (int, int list) RingBufferOf) = Some [1, 2]"
  using bounded_discard [of "\<lparr>buf = [0, 0], initialSize = 2, size_rb = 2, maxSize = 2,
            discards = 0, r = 0, w = 0, onDiscards = Some (\<lambda>v log. log @ [v])\<rparr>
           :: (int, int list) RingBufferOf" 2 "\<lambda>v log. log @ [v]" "[1, 2, 3, 4]" 2 "[]"]
  by (simp add: rb_inv_def Write_def Len_def store_def grow_def make_slice_def
      slice_def copy_at_def copy_def PeekAll_def Let_def numeral_eq_Suc)

section \<open>Overwriting beyond the bound\<close>

text \<open>
  C4. On a buffer with bound \<open>m > 0\<close> and \<open>Len \<ge> m\<close>, \<open>Overwrite v\<close> advances the read
  cursor with wraparound, stores \<open>v\<close> at the write cursor and advances that, and changes
  nothing else: the discard counter and the callback stay, no callback is invoked, the
  oldest element is gone and \<open>v\<close> is the newest. From an empty buffer with bound \<open>m\<close>,
  \<open>m + k\<close> calls of \<open>Overwrite\<close> leave exactly the last \<open>m\<close> values written, oldest first
  in \<open>PeekAll\<close>.
\<close>

theorem overwrite_semantics:
  assumes "rb_inv s" "maxSize s = m" "0 < m"
  shows "(m \<le> Len s \<longrightarrow>
            (\<forall>v. Overwrite v s =
                   Some (s\<lparr>r := (if r s + 1 = Capacity s then 0 else r s + 1),
                           buf := (buf s)[nat (w s) := v],
                           w := (if w s + 1 = Capacity s then 0 else w s + 1)\<rparr>) \<and>
                 (\<exists>xs s'. PeekAll s = Some xs \<and> Overwrite v s = Some s' \<and>
                    PeekAll s' = Some (tl xs @ [v]) \<and> Discards s' = Discards s \<and>
                    onDiscards s' = onDiscards s))) \<and>
         (r s = w s \<longrightarrow>
            (\<forall>vs k. int (length vs) = m + int k \<longrightarrow>
               (\<exists>s'. Overwrites vs s = Some s' \<and> PeekAll s' = Some (drop k vs) \<and>
                  Discards s' = Discards s)))"
proof (intro conjI impI allI)
  fix v
  assume full: "m \<le> Len s"
  with assms Len_0_iff [OF assms(1)] have ne: "r s \<noteq> w s" by auto
  let ?s0 = "s\<lparr>r := (if r s + 1 = size_rb s then 0 else r s + 1)\<rparr>"
  from advance_r [OF assms(1) ne] have inv0: "rb_inv ?s0" by simp
  have ov: "Overwrite v s = put v ?s0"
    using full assms by (simp add: Overwrite_put advance_r_eq)
  have "(if w ?s0 + 1 = size_rb ?s0 then 0 else w ?s0 + 1) \<noteq> r ?s0"
    using ne assms(1) by (auto simp: rb_inv_def)
  from put_no_grow [OF inv0 this, of v]
  show "Overwrite v s =
          Some (s\<lparr>r := (if r s + 1 = Capacity s then 0 else r s + 1),
                  buf := (buf s)[nat (w s) := v],
                  w := (if w s + 1 = Capacity s then 0 else w s + 1)\<rparr>)"
    by (simp add: ov Capacity_def)
  from Overwrite_step [OF assms(1), of v] full assms
  obtain s' where "Overwrite v s = Some s'" "rb_inv s'" "contents s' = tl (contents s) @ [v]"
    "discards s' = discards s" "onDiscards s' = onDiscards s"
    by auto
  then show "\<exists>xs s'. PeekAll s = Some xs \<and> Overwrite v s = Some s' \<and>
                    PeekAll s' = Some (tl xs @ [v]) \<and> Discards s' = Discards s \<and>
                    onDiscards s' = onDiscards s"
    using assms(1) by (simp add: PeekAll_contents Discards_def)
next
  fix vs :: "'a list" and k :: nat
  assume e: "r s = w s" and len: "int (length vs) = m + int k"
  from e assms have c0: "contents s = []" by (simp add: contents_Nil_iff)
  then have "Len s \<le> maxSize s" using assms by (simp add: Len_contents)
  from Overwrites_last [OF assms(1) _ this, of vs] assms c0
  obtain s' where s': "Overwrites vs s = Some s'" "rb_inv s'" "discards s' = discards s"
    "contents s' = drop (length vs - nat m) vs"
    by auto
  from len assms(3) have "length vs - nat m = k" by linarith
  with s' show "\<exists>s'. Overwrites vs s = Some s' \<and> PeekAll s' = Some (drop k vs) \<and>
                  Discards s' = Discards s"
    by (simp add: PeekAll_contents Discards_def)
qed

theorem overwrite_semantics_witness:
  "rb_inv (\<lparr>buf = [1, 2, 0, 0], initialSize = 2, size_rb = 4, maxSize = 2, discards = 0,
            r = 0, w = 2, onDiscards = None\<rparr> :: (int, unit) RingBufferOf) \<and>
   Len (\<lparr>buf = [1, 2, 0, 0], initialSize = 2, size_rb = 4, maxSize = 2, discards = 0,
            r = 0, w = 2, onDiscards = None\<rparr> :: (int, unit) RingBufferOf) = 2 \<and>
   Overwrite 3 (\<lparr>buf = [1, 2, 0, 0], initialSize = 2, size_rb = 4, maxSize = 2, discards = 0,
            r = 0, w = 2, onDiscards = None\<rparr> :: (int, unit) RingBufferOf) =
     Some \<lparr>buf = [1, 2, 3, 0], initialSize = 2, size_rb = 4, maxSize = 2, discards = 0,
            r = 1, w = 3, onDiscards = None\<rparr> \<and>
   rb_inv (\<lparr>buf = [0, 0], initialSize = 2, size_rb = 2, maxSize = 2, discards = 0,
            r = 0, w = 0, onDiscards = None\<rparr> :: (int, unit) RingBufferOf) \<and>
   Overwrites [1, 2, 3, 4]
     (\<lparr>buf = [0, 0], initialSize = 2, size_rb = 2, maxSize = 2, discards = 0,
            r = 0, w = 0, onDiscards = None\<rparr> :: (int, unit) RingBufferOf) =
     Some \<lparr>buf = [1, 2, 3, 4], initialSize = 2, size_rb = 4, maxSize = 2, discards = 0,
            r = 2, w = 0, onDiscards = None\<rparr> \<and>
   PeekAll (\<lparr>buf = [1, 2, 3, 4], initialSize = 2, size_rb = 4, maxSize = 2, discards = 0,
            r = 2, w = 0, onDiscards = None\<rparr> :: (int, unit) RingBufferOf) = Some [3, 4]"
  using overwrite_semantics [of "\<lparr>buf = [1, 2, 0, 0], initialSize = 2, size_rb = 4,
            maxSize = 2, discards = 0, r = 0, w = 2, onDiscards = None\<rparr>
            :: (int, unit) RingBufferOf" 2]
        overwrite_semantics [of "\<lparr>buf = [0, 0], initialSize = 2, size_rb = 2,
            maxSize = 2, discards = 0, r = 0, w = 0, onDiscards = None\<rparr>
            :: (int, unit) RingBufferOf" 2]
  by (simp add: rb_inv_def Overwrite_def Len_def store_def grow_def make_slice_def
      slice_def copy_at_def copy_def PeekAll_def Let_def numeral_eq_Suc)

end
